theory Spec2Isabelle
  imports Main
begin

section \<open>Python strings and lists\<close>

text \<open>
  A Python \<open>str\<close> is a sequence of Unicode code points: slicing, \<open>strip\<close> and
  \<open>replace\<close> count code points, and the transliteration table of \<open>normalizeName\<close>
  holds code points beyond eight bits. A string is therefore a list of code points;
  \<open>asc\<close> writes an ASCII literal of the source.
\<close>

type_synonym str = "nat list"

definition asc :: "string \<Rightarrow> str" where
  "asc s = map of_char s"

text \<open>\<open>s[a:b]\<close> for literal bounds \<open>0 \<le> a \<le> b\<close>; \<open>s[a:]\<close> is \<open>drop a s\<close> and
  \<open>s[:b]\<close> is \<open>take b s\<close>. A slice never raises.\<close>

definition slice :: "nat \<Rightarrow> nat \<Rightarrow> 'a list \<Rightarrow> 'a list" where
  "slice a b s = take (b - a) (drop a s)"

text \<open>\<open>s.strip(chars)\<close>: drop the leading and the trailing characters that are in \<open>chars\<close>.\<close>

definition strip :: "str \<Rightarrow> str \<Rightarrow> str" where
  "strip chars s = rev (dropWhile (\<lambda>c. c \<in> set chars) (rev (dropWhile (\<lambda>c. c \<in> set chars) s)))"

text \<open>\<open>s.replace(old, new)\<close> for a non-empty \<open>old\<close>: the non-overlapping occurrences, from
  the left. (Every \<open>old\<close> in the source is one code point.)\<close>

function replace :: "str \<Rightarrow> str \<Rightarrow> str \<Rightarrow> str" where
  "replace old new [] = []"
| "replace old new (c # cs) =
     (if old \<noteq> [] \<and> take (length old) (c # cs) = old
      then new @ replace old new (drop (length old) (c # cs))
      else c # replace old new cs)"
  by pat_completeness auto
termination
  by (relation "measure (\<lambda>(old, new, s). length s)") auto

text \<open>Python exceptions that the modelled functions could raise.\<close>

datatype error = ValueError | AttributeError

text \<open>\<open>xs.remove(x)\<close>: removes the first occurrence, raises \<open>ValueError\<close> when there is none.\<close>

definition list_remove :: "'a \<Rightarrow> 'a list \<Rightarrow> error + 'a list" where
  "list_remove x xs = (if x \<in> set xs then Inr (remove1 x xs) else Inl ValueError)"

section \<open>Name normalisation and matching\<close>

text \<open>The \<open>nm = nm.replace(old, new)\<close> lines of \<open>normalizeName\<close>, in source order.\<close>

definition replacements :: "(str \<times> str) list" where
  "replacements =
    [([228], asc ''ae''), ([246], asc ''oe''), ([252], asc ''ue''),
     ([196], asc ''Ae''), ([214], asc ''Oe''), ([220], asc ''Ue''),
     ([223], asc ''ss''), ([233], asc ''e''), ([232], asc ''e''),
     ([235], asc ''e''), ([225], asc ''a''), ([229], asc ''a''),
     ([230], asc ''ae''), ([339], asc ''oe''), ([248], asc ''o''),
     ([307], asc ''ij''), ([255], asc ''y''), ([253], asc ''y''),
     ([382], asc ''z''), ([353], asc ''s''), ([269], asc ''c''),
     ([231], asc ''c''), ([241], asc ''n''), ([324], asc ''n''),
     ([322], asc ''l''), (asc ''-'', asc '' '')]"

definition normalizeName :: "str \<Rightarrow> str" where
  "normalizeName nm =
     (let nm = (if take 3 nm = asc ''Dr.'' then drop 3 nm else nm);
          nm = strip (asc '' '') nm
      in foldl (\<lambda>nm (old, new). replace old new nm) nm replacements)"

definition nameMatch :: "str \<Rightarrow> str \<Rightarrow> bool" where
  "nameMatch nm1 nm2 =
     (if nm1 = nm2 then True
      else if normalizeName nm1 = normalizeName nm2 then True
      else False)"

section \<open>Roster members and directory users\<close>

text \<open>Class \<open>MailUser\<close>; the constructor sets \<open>ucsnm = ""\<close> and \<open>mls = []\<close>.\<close>

record MailUser =
  ghnm :: str
  name :: str
  ucsnm :: str
  mls :: "str list"

definition MailUser_init :: "str \<Rightarrow> str \<Rightarrow> MailUser" where
  "MailUser_init g n = \<lparr>ghnm = g, name = n, ucsnm = [], mls = []\<rparr>"

text \<open>Class \<open>UdmUser\<close>; the constructor sets \<open>gecos\<close> to the name as well. The parser only
  ever calls \<open>UdmUser(uid)\<close>, with the default \<open>name=""\<close>.\<close>

record UdmUser =
  uid :: str
  name :: str
  gecos :: str
  mls :: "str list"

definition UdmUser_init :: "str \<Rightarrow> str \<Rightarrow> UdmUser" where
  "UdmUser_init u n = \<lparr>uid = u, name = n, gecos = n, mls = []\<rparr>"

section \<open>The directory parser \<open>readUDM\<close>\<close>

text \<open>\<open>uidre.match(s)\<close> for \<open>uidre = re.compile(r'uid=([^,]*),')\<close>: \<open>match\<close> anchors the pattern
  at the start of \<open>s\<close>; the greedy group takes the code points up to the first comma, which
  must exist. The result is group 1 of the match, or \<open>None\<close>.\<close>

definition uidre_match :: "str \<Rightarrow> str option" where
  "uidre_match s =
     (if take 4 s = asc ''uid='' \<and> 44 \<in> set (drop 4 s)
      then Some (takeWhile (\<lambda>c. c \<noteq> 44) (drop 4 s))
      else None)"

text \<open>
  The state of the loop of \<open>readUDM\<close>: the list \<open>udm\<close> of the objects created so far, the
  variable \<open>usr\<close>, which is \<open>None\<close> or a reference to one of the objects of \<open>udm\<close> (its
  index in the list), and the lines printed to \<open>sys.stderr\<close>.
\<close>

record readUDM_state =
  udm :: "UdmUser list"
  usr :: "nat option"
  stderr :: "str list"

text \<open>An assignment to an attribute of the object that \<open>usr\<close> refers to.\<close>

definition set_usr :: "nat \<Rightarrow> (UdmUser \<Rightarrow> UdmUser) \<Rightarrow> readUDM_state \<Rightarrow> readUDM_state" where
  "set_usr i f st = st\<lparr>udm := (udm st)[i := f (udm st ! i)]\<rparr>"

text \<open>The f-string of the warning, for the stripped line \<open>ln\<close>.\<close>

definition dn_warning :: "str \<Rightarrow> str" where
  "dn_warning ln = asc ''Warning: DN line without uid= match: '' @ ln"

text \<open>The first \<open>if\<close> of the loop body, on the stripped line: a new record, or a warning.\<close>

definition readUDM_dn :: "readUDM_state \<Rightarrow> str \<Rightarrow> readUDM_state" where
  "readUDM_dn st ln =
     (if take 4 ln = asc ''DN: '' then
        (case uidre_match (drop 4 ln) of
           Some g \<Rightarrow> st\<lparr>udm := udm st @ [UdmUser_init g []], usr := Some (length (udm st))\<rparr>
         | None \<Rightarrow> st\<lparr>usr := None, stderr := stderr st @ [dn_warning ln]\<rparr>)
      else st)"

text \<open>The rest of the loop body: \<open>continue\<close> when \<open>usr\<close> is \<open>None\<close> (an object of class
  \<open>UdmUser\<close> is always true), else the chain of field tests.\<close>

definition readUDM_fields :: "readUDM_state \<Rightarrow> str \<Rightarrow> error + readUDM_state" where
  "readUDM_fields st ln =
     (case usr st of
        None \<Rightarrow> Inr st
      | Some i \<Rightarrow>
          if slice 2 14 ln = asc ''displayName:'' then
            Inr (set_usr i (\<lambda>u. u\<lparr>name := drop 15 ln\<rparr>) st)
          else if slice 2 21 ln = asc ''mailForwardAddress:'' then
            (case (if drop 22 ln \<in> set (mls (udm st ! i))
                   then list_remove (drop 22 ln) (mls (udm st ! i))
                   else Inr (mls (udm st ! i))) of
               Inl e \<Rightarrow> Inl e
             | Inr m \<Rightarrow> Inr (set_usr i (\<lambda>u. u\<lparr>mls := drop 22 ln # m\<rparr>) st))
          else if slice 2 9 ln = asc ''e-mail:'' then
            (if drop 10 ln \<notin> set (mls (udm st ! i))
             then Inr (set_usr i (\<lambda>u. u\<lparr>mls := mls u @ [drop 10 ln]\<rparr>) st)
             else Inr st)
          else if slice 2 8 ln = asc ''gecos:'' then
            Inr (set_usr i (\<lambda>u. u\<lparr>gecos := drop 9 ln\<rparr>) st)
          else Inr st)"

text \<open>One iteration of \<open>for ln in file\<close>. The record-start test is an \<open>if\<close> of its own, so
  a \<open>DN: \<close> line goes on to the field tests below it.\<close>

definition readUDM_line :: "readUDM_state \<Rightarrow> str \<Rightarrow> error + readUDM_state" where
  "readUDM_line st ln =
     (let ln = strip [13, 10] ln in readUDM_fields (readUDM_dn st ln) ln)"

fun readUDM_loop :: "readUDM_state \<Rightarrow> str list \<Rightarrow> error + readUDM_state" where
  "readUDM_loop st [] = Inr st"
| "readUDM_loop st (ln # lns) =
     (case readUDM_line st ln of Inl e \<Rightarrow> Inl e | Inr st' \<Rightarrow> readUDM_loop st' lns)"

definition readUDM_run :: "str list \<Rightarrow> error + readUDM_state" where
  "readUDM_run lns = readUDM_loop \<lparr>udm = [], usr = None, stderr = []\<rparr> lns"

text \<open>\<open>readUDM\<close> on the lines of the file, each with its line end: the returned list.\<close>

definition readUDM :: "str list \<Rightarrow> error + UdmUser list" where
  "readUDM lns = (case readUDM_run lns of Inl e \<Rightarrow> Inl e | Inr st \<Rightarrow> Inr (udm st))"

text \<open>
  Two readings of a line of the file, for stating what the loop does with it: whether the
  first \<open>if\<close> of the loop body takes it for an identifier line, and the id it then finds.
\<close>

definition is_dn :: "str \<Rightarrow> bool" where
  "is_dn ln = (take 4 (strip [13, 10] ln) = asc ''DN: '')"

definition dn_uid :: "str \<Rightarrow> str option" where
  "dn_uid ln = (if is_dn ln then uidre_match (drop 4 (strip [13, 10] ln)) else None)"

text \<open>Whether the first field test of the loop body takes the line for a display name.\<close>

definition is_displayName :: "str \<Rightarrow> bool" where
  "is_displayName ln = (slice 2 14 (strip [13, 10] ln) = asc ''displayName:'')"

section \<open>The merge \<open>udmMail\<close>\<close>

text \<open>The inner loop \<open>for ml in udmuser.mls: user.mls.append(ml)\<close>.\<close>

definition append_mls :: "MailUser \<Rightarrow> str list \<Rightarrow> MailUser" where
  "append_mls user ms = foldl (\<lambda>u ml. u\<lparr>MailUser.mls := MailUser.mls u @ [ml]\<rparr>) user ms"

text \<open>\<open>udmMail\<close> changes \<open>user\<close> in place; the model returns the changed object.\<close>

fun udmMail :: "MailUser \<Rightarrow> UdmUser list \<Rightarrow> MailUser" where
  "udmMail user [] = user"
| "udmMail user (udmuser # rest) =
     udmMail
       (if nameMatch (MailUser.name user) (name udmuser) \<or>
           nameMatch (MailUser.name user) (gecos udmuser)
        then append_mls (user\<lparr>ucsnm := uid udmuser\<rparr>) (mls udmuser)
        else user)
       rest"

text \<open>\<open>githubMail\<close>, the other place that adds to \<open>user.mls\<close>; \<open>email\<close> is the attribute
  \<open>ghu.email\<close> of the object that the GitHub client returned (\<open>None\<close> or a string).\<close>

definition githubMail :: "MailUser \<Rightarrow> str option \<Rightarrow> MailUser" where
  "githubMail user email =
     (case email of
        None \<Rightarrow> user
      | Some e \<Rightarrow>
          if e \<noteq> [] then
            (if e \<notin> set (MailUser.mls user)
             then user\<lparr>MailUser.mls := MailUser.mls user @ [e]\<rparr>
             else user)
          else user)"

section \<open>Evaluation and basic facts\<close>

lemmas parser_defs =
  readUDM_def readUDM_run_def readUDM_line_def readUDM_dn_def readUDM_fields_def dn_warning_def uidre_match_def strip_def slice_def asc_def
  set_usr_def UdmUser_init_def list_remove_def

lemmas name_defs = nameMatch_def normalizeName_def replacements_def strip_def asc_def

lemma append_mls_eq: "append_mls user ms = user\<lparr>MailUser.mls := MailUser.mls user @ ms\<rparr>"
proof (induction ms arbitrary: user)
  case Nil
  show ?case by (simp add: append_mls_def)
next
  case (Cons m ms)
  have "append_mls user (m # ms) = append_mls (user\<lparr>MailUser.mls := MailUser.mls user @ [m]\<rparr>) ms"
    by (simp add: append_mls_def)
  then show ?case by (simp add: Cons.IH)
qed

subsection \<open>The parser raises nothing and keeps the email lists duplicate-free\<close>

lemma readUDM_fields_total: "\<exists>st'. readUDM_fields st ln = Inr st'"
  by (simp add: readUDM_fields_def list_remove_def split: option.split)

lemma readUDM_line_total: "\<exists>st'. readUDM_line st ln = Inr st'"
  by (simp add: readUDM_line_def Let_def readUDM_fields_total)

lemma readUDM_loop_total: "\<exists>st'. readUDM_loop st lns = Inr st'"
proof (induction lns arbitrary: st)
  case Nil
  show ?case by simp
next
  case (Cons ln lns)
  obtain st1 where "readUDM_line st ln = Inr st1" using readUDM_line_total by blast
  then show ?case using Cons.IH [of st1] by simp
qed

lemma readUDM_loop_append:
  "readUDM_loop st (xs @ ys) =
     (case readUDM_loop st xs of Inl e \<Rightarrow> Inl e | Inr st' \<Rightarrow> readUDM_loop st' ys)"
  by (induction xs arbitrary: st) (simp_all split: sum.split)

lemma set_usr_fields [simp]:
  "usr (set_usr i f st) = usr st" "stderr (set_usr i f st) = stderr st"
  "length (udm (set_usr i f st)) = length (udm st)"
  by (simp_all add: set_usr_def)

lemma set_usr_distinct:
  assumes "\<forall>u\<in>set (udm st). distinct (mls u)"
    and "i < length (udm st) \<Longrightarrow> distinct (mls (f (udm st ! i)))"
  shows "\<forall>u\<in>set (udm (set_usr i f st)). distinct (mls u)"
proof (cases "i < length (udm st)")
  case True
  have "set ((udm st)[i := f (udm st ! i)]) \<subseteq> insert (f (udm st ! i)) (set (udm st))"
    by (rule set_update_subset_insert)
  then show ?thesis using assms True by (auto simp: set_usr_def)
next
  case False
  then show ?thesis using assms(1) by (simp add: set_usr_def not_less list_update_beyond)
qed

lemma readUDM_dn_distinct:
  "\<forall>u\<in>set (udm st). distinct (mls u) \<Longrightarrow> \<forall>u\<in>set (udm (readUDM_dn st ln)). distinct (mls u)"
  by (auto simp: readUDM_dn_def UdmUser_init_def split: option.split)

lemma readUDM_fields_distinct:
  assumes "readUDM_fields st l = Inr st'" and d1: "\<forall>u\<in>set (udm st). distinct (mls u)"
  shows "\<forall>u\<in>set (udm st'). distinct (mls u)"
proof (cases "usr st")
  case None
  then have "st' = st" using assms(1) by (simp add: readUDM_fields_def)
  then show ?thesis using d1 by simp
next
  case (Some i)
  have nth: "i < length (udm st) \<Longrightarrow> distinct (mls (udm st ! i))"
    using d1 by simp
  have a: "\<forall>u\<in>set (udm (set_usr i (\<lambda>u. u\<lparr>name := drop 15 l\<rparr>) st)). distinct (mls u)"
    by (rule set_usr_distinct [OF d1]) (simp add: nth)
  have b: "\<forall>u\<in>set (udm (set_usr i (\<lambda>u. u\<lparr>mls := drop 22 l # remove1 (drop 22 l) (mls (udm st ! i))\<rparr>) st)). distinct (mls u)"
    by (rule set_usr_distinct [OF d1]) (simp add: nth)
  have b': "drop 22 l \<notin> set (mls (udm st ! i)) \<Longrightarrow> \<forall>u\<in>set (udm (set_usr i (\<lambda>u. u\<lparr>mls := drop 22 l # mls (udm st ! i)\<rparr>) st)). distinct (mls u)"
    by (rule set_usr_distinct [OF d1]) (simp add: nth)
  have c: "drop 10 l \<notin> set (mls (udm st ! i)) \<Longrightarrow> \<forall>u\<in>set (udm (set_usr i (\<lambda>u. u\<lparr>mls := mls u @ [drop 10 l]\<rparr>) st)). distinct (mls u)"
    by (rule set_usr_distinct [OF d1]) (simp add: nth)
  have d: "\<forall>u\<in>set (udm (set_usr i (\<lambda>u. u\<lparr>gecos := drop 9 l\<rparr>) st)). distinct (mls u)"
    by (rule set_usr_distinct [OF d1]) (simp add: nth)
  show ?thesis
    using assms(1) a b b' c d d1 Some unfolding readUDM_fields_def
    by (auto simp: list_remove_def split: if_splits)
qed

lemma readUDM_loop_distinct:
  "readUDM_loop st lns = Inr st' \<Longrightarrow> \<forall>u\<in>set (udm st). distinct (mls u)
   \<Longrightarrow> \<forall>u\<in>set (udm st'). distinct (mls u)"
proof (induction lns arbitrary: st)
  case Nil
  then show ?case by simp
next
  case (Cons ln lns)
  obtain st1 where s1: "readUDM_line st ln = Inr st1" using readUDM_line_total by blast
  then have "\<forall>u\<in>set (udm st1). distinct (mls u)"
    using Cons.prems(2) readUDM_fields_distinct readUDM_dn_distinct
    unfolding readUDM_line_def Let_def by blast
  moreover have "readUDM_loop st1 lns = Inr st'" using Cons.prems(1) s1 by simp
  ultimately show ?case using Cons.IH by blast
qed

subsection \<open>What one line does\<close>

lemma strip_prefix_kept:
  assumes "p \<noteq> []" "hd p \<notin> set cs" "last p \<notin> set cs"
  shows "\<exists>r. strip cs (p @ r0) = p @ r \<and> (r0 = [] \<or> last r0 \<notin> set cs \<longrightarrow> r = r0)"
proof -
  have h: "dropWhile (\<lambda>c. c \<in> set cs) (p @ r0) = p @ r0"
    using assms(1,2) by (cases p) simp_all
  have "dropWhile (\<lambda>c. c \<in> set cs) (rev r0 @ rev p) =
        (if \<forall>x\<in>set (rev r0). x \<in> set cs then rev p else dropWhile (\<lambda>c. c \<in> set cs) (rev r0) @ rev p)"
  proof -
    have "dropWhile (\<lambda>c. c \<in> set cs) (rev p) = rev p"
      using assms(1,3) by (cases p rule: rev_cases) simp_all
    then show ?thesis by (simp add: dropWhile_append)
  qed
  then have s: "strip cs (p @ r0) =
        (if \<forall>x\<in>set r0. x \<in> set cs then p else p @ rev (dropWhile (\<lambda>c. c \<in> set cs) (rev r0)))"
    using h by (simp add: strip_def)
  have "r0 \<noteq> [] \<Longrightarrow> last r0 \<notin> set cs \<Longrightarrow> rev (dropWhile (\<lambda>c. c \<in> set cs) (rev r0)) = r0"
    by (cases r0 rule: rev_cases) simp_all
  moreover have "r0 \<noteq> [] \<Longrightarrow> last r0 \<notin> set cs \<Longrightarrow> \<not> (\<forall>x\<in>set r0. x \<in> set cs)"
    using last_in_set by blast
  ultimately show ?thesis using s by (cases "r0 = []") auto
qed

lemma strip_field_line:
  assumes "p \<noteq> []" "hd p \<notin> set cs" "last p \<notin> set cs" "v = [] \<or> last v \<notin> set cs"
  shows "\<exists>r. strip cs (p @ c # v) = p @ r \<and> drop 1 r = v"
proof (cases "v = [] \<and> c \<in> set cs")
  case True
  have h: "dropWhile (\<lambda>c. c \<in> set cs) (p @ [c]) = p @ [c]"
    using assms(1,2) by (cases p) simp_all
  have "dropWhile (\<lambda>c. c \<in> set cs) (rev p) = rev p"
    using assms(1,3) by (cases p rule: rev_cases) simp_all
  then have "strip cs (p @ [c]) = p"
    using True unfolding strip_def h by simp
  then show ?thesis using True by simp
next
  case False
  then have "c # v = [] \<or> last (c # v) \<notin> set cs" using assms(4) by auto
  then show ?thesis using strip_prefix_kept [OF assms(1,2,3), of "c # v"] by auto
qed

lemma readUDM_fields_DN: "take 4 l = asc ''DN: '' \<Longrightarrow> readUDM_fields st l = Inr st"
proof -
  assume a: "take 4 l = asc ''DN: ''"
  have "l = take 4 l @ drop 4 l" by simp
  then obtain r where l: "l = asc ''DN: '' @ r" using a by metis
  show ?thesis unfolding l
    by (simp add: readUDM_fields_def slice_def asc_def split: option.split)
qed

lemma field_displayName:
  assumes "usr st = Some i" "v = [] \<or> last v \<notin> {13, 10}"
  shows "readUDM_line st (asc ''  displayName:'' @ c # v) = Inr (set_usr i (\<lambda>u. u\<lparr>name := v\<rparr>) st)"
proof -
  obtain r where r: "strip [13, 10] (asc ''  displayName:'' @ c # v) = asc ''  displayName:'' @ r" "drop 1 r = v"
    using strip_field_line [of "asc ''  displayName:''" "[13, 10]" v c] assms(2)
    by (auto simp: asc_def)
  show ?thesis
    using assms(1) r(2) unfolding readUDM_line_def Let_def r(1)
    by (simp add: readUDM_dn_def readUDM_fields_def slice_def asc_def)
qed

lemma field_mailForwardAddress:
  assumes "usr st = Some i" "v = [] \<or> last v \<notin> {13, 10}"
  shows "readUDM_line st (asc ''  mailForwardAddress:'' @ c # v) =
           Inr (set_usr i (\<lambda>u. u\<lparr>mls := v # remove1 v (mls (udm st ! i))\<rparr>) st)"
proof -
  obtain r where r: "strip [13, 10] (asc ''  mailForwardAddress:'' @ c # v) = asc ''  mailForwardAddress:'' @ r" "drop 1 r = v"
    using strip_field_line [of "asc ''  mailForwardAddress:''" "[13, 10]" v c] assms(2)
    by (auto simp: asc_def)
  show ?thesis
    using assms(1) r(2) unfolding readUDM_line_def Let_def r(1)
    by (simp add: readUDM_dn_def readUDM_fields_def slice_def asc_def list_remove_def remove1_idem)
qed

lemma field_email:
  assumes "usr st = Some i" "v = [] \<or> last v \<notin> {13, 10}"
  shows "readUDM_line st (asc ''  e-mail:'' @ c # v) =
           Inr (if v \<notin> set (mls (udm st ! i))
                then set_usr i (\<lambda>u. u\<lparr>mls := mls u @ [v]\<rparr>) st else st)"
proof -
  obtain r where r: "strip [13, 10] (asc ''  e-mail:'' @ c # v) = asc ''  e-mail:'' @ r" "drop 1 r = v"
    using strip_field_line [of "asc ''  e-mail:''" "[13, 10]" v c] assms(2)
    by (auto simp: asc_def)
  show ?thesis
    using assms(1) r(2) unfolding readUDM_line_def Let_def r(1)
    by (simp add: readUDM_dn_def readUDM_fields_def slice_def asc_def)
qed

lemma field_gecos:
  assumes "usr st = Some i" "v = [] \<or> last v \<notin> {13, 10}"
  shows "readUDM_line st (asc ''  gecos:'' @ c # v) = Inr (set_usr i (\<lambda>u. u\<lparr>gecos := v\<rparr>) st)"
proof -
  obtain r where r: "strip [13, 10] (asc ''  gecos:'' @ c # v) = asc ''  gecos:'' @ r" "drop 1 r = v"
    using strip_field_line [of "asc ''  gecos:''" "[13, 10]" v c] assms(2)
    by (auto simp: asc_def)
  show ?thesis
    using assms(1) r(2) unfolding readUDM_line_def Let_def r(1)
    by (simp add: readUDM_dn_def readUDM_fields_def slice_def asc_def)
qed

lemma readUDM_line_bad_dn:
  assumes "is_dn ln" "dn_uid ln = None"
  shows "readUDM_line st ln =
           Inr (st\<lparr>usr := None, stderr := stderr st @ [dn_warning (strip [13, 10] ln)]\<rparr>)"
  using assms
  by (simp add: readUDM_line_def Let_def readUDM_dn_def readUDM_fields_def is_dn_def dn_uid_def)

lemma readUDM_line_good_dn:
  assumes "dn_uid ln = Some g"
  shows "readUDM_line st ln =
           Inr (st\<lparr>udm := udm st @ [UdmUser_init g []], usr := Some (length (udm st))\<rparr>)"
proof -
  have d: "take 4 (strip [13, 10] ln) = asc ''DN: ''"
    and m: "uidre_match (drop 4 (strip [13, 10] ln)) = Some g"
    using assms by (simp_all add: dn_uid_def is_dn_def split: if_splits)
  show ?thesis
    unfolding readUDM_line_def Let_def readUDM_fields_DN [OF d]
    using d m by (simp add: readUDM_dn_def)
qed

lemma readUDM_line_inactive:
  assumes "usr st = None" "\<not> is_dn ln"
  shows "readUDM_line st ln = Inr st"
  using assms
  by (simp add: readUDM_line_def Let_def readUDM_dn_def readUDM_fields_def is_dn_def)

lemma readUDM_loop_inactive:
  "usr st = None \<Longrightarrow> \<forall>l\<in>set lns. \<not> is_dn l \<Longrightarrow> readUDM_loop st lns = Inr st"
  by (induction lns) (simp_all add: readUDM_line_inactive)

lemma dn_uid_line:
  assumes "44 \<notin> set ident"
  shows "dn_uid (asc ''DN: uid='' @ ident @ 44 # rest) = Some ident"
proof -
  let ?p = "asc ''DN: uid='' @ ident @ [44]"
  have "?p \<noteq> []" "hd ?p \<notin> set [13, 10]" "last ?p \<notin> set [13, 10]"
    by (simp_all add: asc_def)
  from strip_prefix_kept [OF this, of rest]
  obtain r where r: "strip [13, 10] (asc ''DN: uid='' @ ident @ 44 # rest) = asc ''DN: uid='' @ ident @ 44 # r"
    by auto
  have t: "takeWhile (\<lambda>c. c \<noteq> 44) (ident @ 44 # r) = ident"
  proof -
    have "\<And>x. x \<in> set ident \<Longrightarrow> x \<noteq> 44" using assms by auto
    then have "takeWhile (\<lambda>c. c \<noteq> 44) (ident @ 44 # r) = ident @ takeWhile (\<lambda>c. c \<noteq> 44) (44 # r)"
      by (rule takeWhile_append2)
    then show ?thesis by simp
  qed
  show ?thesis
    unfolding dn_uid_def is_dn_def r using t
    by (simp add: asc_def uidre_match_def)
qed

subsection \<open>The ids and the warnings of a run\<close>

lemma set_usr_map:
  assumes "\<And>u. g (f u) = g u"
  shows "map g (udm (set_usr i f st)) = map g (udm st)"
proof (cases "i < length (udm st)")
  case True
  then have "(map g (udm st))[i := g (udm st ! i)] = map g (udm st)"
    by (metis list_update_id nth_map)
  then show ?thesis by (simp add: set_usr_def map_update assms)
next
  case False
  then show ?thesis by (simp add: set_usr_def not_less list_update_beyond)
qed

lemma readUDM_fields_uid:
  assumes "readUDM_fields st l = Inr st'"
  shows "map uid (udm st') = map uid (udm st) \<and> stderr st' = stderr st \<and> usr st' = usr st"
proof (cases "usr st")
  case None
  then show ?thesis using assms by (auto simp: readUDM_fields_def)
next
  case (Some i)
  have m: "\<And>f. (\<And>u. uid (f u) = uid u) \<Longrightarrow> map uid (udm (set_usr i f st)) = map uid (udm st)"
    by (rule set_usr_map)
  show ?thesis
    using assms Some unfolding readUDM_fields_def
    by (auto simp: m list_remove_def split: if_splits)
qed

lemma readUDM_line_nodn:
  "\<not> is_dn ln \<Longrightarrow> readUDM_line st ln = readUDM_fields st (strip [13, 10] ln)"
  by (simp add: readUDM_line_def Let_def readUDM_dn_def is_dn_def)

lemma readUDM_loop_uids:
  "readUDM_loop st lns = Inr st' \<Longrightarrow>
     map uid (udm st') = map uid (udm st) @ List.map_filter dn_uid lns
     \<and> stderr st' = stderr st @
          map (\<lambda>l. dn_warning (strip [13, 10] l)) (filter (\<lambda>l. is_dn l \<and> dn_uid l = None) lns)"
proof (induction lns arbitrary: st)
  case Nil
  then show ?case by (simp add: map_filter_simps)
next
  case (Cons ln lns)
  obtain st1 where s1: "readUDM_line st ln = Inr st1" using readUDM_line_total by blast
  then have l: "readUDM_loop st1 lns = Inr st'" using Cons.prems by simp
  note ih = Cons.IH [OF l]
  show ?case
  proof (cases "is_dn ln")
    case False
    then have n: "dn_uid ln = None" by (simp add: dn_uid_def)
    have "readUDM_fields st (strip [13, 10] ln) = Inr st1"
      using s1 False by (simp add: readUDM_line_nodn)
    from readUDM_fields_uid [OF this] show ?thesis
      using ih False n by (simp add: map_filter_simps)
  next
    case True
    show ?thesis
    proof (cases "dn_uid ln")
      case None
      then have "st1 = st\<lparr>usr := None, stderr := stderr st @ [dn_warning (strip [13, 10] ln)]\<rparr>"
        using s1 True by (simp add: readUDM_line_bad_dn)
      then show ?thesis using ih True None by (simp add: map_filter_simps)
    next
      case (Some g)
      then have "st1 = st\<lparr>udm := udm st @ [UdmUser_init g []], usr := Some (length (udm st))\<rparr>"
        using s1 by (simp add: readUDM_line_good_dn)
      then show ?thesis using ih True Some by (simp add: map_filter_simps UdmUser_init_def)
    qed
  qed
qed

lemma dn_uid_no_comma: "dn_uid l = Some g \<Longrightarrow> 44 \<notin> set g"
  by (auto simp: dn_uid_def uidre_match_def split: if_splits dest: set_takeWhileD)

lemma dn_uid_empty_iff:
  assumes "dn_uid l = Some g"
  shows "g = [] \<longleftrightarrow> take 1 (drop 8 (strip [13, 10] l)) = [44]"
proof -
  let ?r = "drop 8 (strip [13, 10] l)"
  have g: "g = takeWhile (\<lambda>c. c \<noteq> 44) ?r" and m: "44 \<in> set ?r"
    using assms by (auto simp: dn_uid_def uidre_match_def split: if_splits)
  from m obtain a r where r: "?r = a # r" by (cases ?r) auto
  show ?thesis unfolding g r by simp
qed

subsection \<open>Records that later lines leave alone, and facts on the merge\<close>

lemma readUDM_fields_shape:
  assumes "readUDM_fields st l = Inr st'"
  shows "st' = st \<or> (\<exists>i f. usr st = Some i \<and> st' = set_usr i f st)"
proof (cases "usr st")
  case None
  then show ?thesis using assms by (simp add: readUDM_fields_def)
next
  case (Some i)
  then show ?thesis
    using assms unfolding readUDM_fields_def
    by (auto simp: list_remove_def split: if_splits)
qed

lemma readUDM_fields_names:
  assumes "readUDM_fields st l = Inr st'" "slice 2 14 l \<noteq> asc ''displayName:''"
  shows "map name (udm st') = map name (udm st)"
proof (cases "usr st")
  case None
  then show ?thesis using assms by (auto simp: readUDM_fields_def)
next
  case (Some i)
  have m: "\<And>f. (\<And>u. name (f u) = name u) \<Longrightarrow> map name (udm (set_usr i f st)) = map name (udm st)"
    by (rule set_usr_map)
  show ?thesis
    using assms Some unfolding readUDM_fields_def
    by (auto simp: m list_remove_def split: if_splits)
qed

lemma readUDM_loop_block:
  "readUDM_loop st block = Inr st' \<Longrightarrow> \<forall>l\<in>set block. \<not> is_dn l \<and> \<not> is_displayName l \<Longrightarrow>
     map name (udm st') = map name (udm st) \<and> map uid (udm st') = map uid (udm st)
     \<and> usr st' = usr st"
proof (induction block arbitrary: st)
  case Nil
  then show ?case by simp
next
  case (Cons ln lns)
  obtain st1 where s1: "readUDM_line st ln = Inr st1" using readUDM_line_total by blast
  then have l: "readUDM_loop st1 lns = Inr st'" using Cons.prems(1) by simp
  have f: "readUDM_fields st (strip [13, 10] ln) = Inr st1"
    using s1 Cons.prems(2) by (simp add: readUDM_line_nodn)
  have "map name (udm st1) = map name (udm st)"
    using readUDM_fields_names [OF f] Cons.prems(2) by (simp add: is_displayName_def)
  moreover note readUDM_fields_uid [OF f]
  moreover have "map name (udm st') = map name (udm st1) \<and> map uid (udm st') = map uid (udm st1)
     \<and> usr st' = usr st1"
    using Cons.IH [OF l] Cons.prems(2) by simp
  ultimately show ?case by simp
qed

lemma readUDM_line_frozen:
  assumes "readUDM_line st ln = Inr st'" "n \<le> length (udm st)"
    "(\<forall>i. usr st = Some i \<longrightarrow> n \<le> i) \<or> is_dn ln"
  shows "take n (udm st') = take n (udm st) \<and> n \<le> length (udm st')
         \<and> (\<forall>i. usr st' = Some i \<longrightarrow> n \<le> i)"
proof (cases "is_dn ln")
  case True
  show ?thesis
  proof (cases "dn_uid ln")
    case None
    then show ?thesis using assms(1,2) True by (auto simp: readUDM_line_bad_dn)
  next
    case (Some g)
    then show ?thesis using assms(1,2) by (auto simp: readUDM_line_good_dn)
  qed
next
  case False
  then have f: "readUDM_fields st (strip [13, 10] ln) = Inr st'"
    using assms(1) by (simp add: readUDM_line_nodn)
  from readUDM_fields_shape [OF f] show ?thesis
  proof
    assume "st' = st"
    then show ?thesis using assms(2,3) False by simp
  next
    assume "\<exists>i f. usr st = Some i \<and> st' = set_usr i f st"
    then obtain i f where i: "usr st = Some i" "st' = set_usr i f st" by blast
    then have "n \<le> i" using assms(3) False by simp
    then show ?thesis using i assms(2) by (simp add: set_usr_def)
  qed
qed

lemma readUDM_loop_frozen:
  "readUDM_loop st lns = Inr st' \<Longrightarrow> n \<le> length (udm st) \<Longrightarrow>
   (\<forall>i. usr st = Some i \<longrightarrow> n \<le> i) \<or> lns = [] \<or> is_dn (hd lns) \<Longrightarrow>
   take n (udm st') = take n (udm st)"
proof (induction lns arbitrary: st)
  case Nil
  then show ?case by simp
next
  case (Cons ln lns)
  obtain st1 where s1: "readUDM_line st ln = Inr st1" using readUDM_line_total by blast
  then have l: "readUDM_loop st1 lns = Inr st'" using Cons.prems(1) by simp
  have "(\<forall>i. usr st = Some i \<longrightarrow> n \<le> i) \<or> is_dn ln" using Cons.prems(3) by simp
  from readUDM_line_frozen [OF s1 Cons.prems(2) this]
  have a: "take n (udm st1) = take n (udm st)" "n \<le> length (udm st1)"
     "\<forall>i. usr st1 = Some i \<longrightarrow> n \<le> i"
    by simp_all
  have "take n (udm st') = take n (udm st1)"
    using Cons.IH [OF l a(2)] a(3) by blast
  then show ?case using a(1) by simp
qed

lemma udmMail_append: "udmMail user (xs @ ys) = udmMail (udmMail user xs) ys"
  by (induction xs arbitrary: user) simp_all

lemma udmMail_name: "MailUser.name (udmMail user rs) = MailUser.name user"
  by (induction rs arbitrary: user) (simp_all add: append_mls_eq)

lemma udmMail_mls_prefix: "\<exists>ms. MailUser.mls (udmMail user rs) = MailUser.mls user @ ms"
proof (induction rs arbitrary: user)
  case Nil
  show ?case by simp
next
  case (Cons r rs)
  show ?case
  proof (cases "nameMatch (MailUser.name user) (name r) \<or> nameMatch (MailUser.name user) (gecos r)")
    case True
    obtain ms where "MailUser.mls (udmMail (append_mls (user\<lparr>ucsnm := uid r\<rparr>) (mls r)) rs)
        = MailUser.mls (append_mls (user\<lparr>ucsnm := uid r\<rparr>) (mls r)) @ ms"
      using Cons.IH by blast
    then show ?thesis using True by (simp add: append_mls_eq)
  next
    case False
    then show ?thesis using Cons.IH [of user] by simp
  qed
qed

lemma udmMail_nomatch:
  "\<forall>r\<in>set rs. \<not> nameMatch (MailUser.name user) (name r) \<and> \<not> nameMatch (MailUser.name user) (gecos r)
   \<Longrightarrow> udmMail user rs = user"
  by (induction rs) simp_all

lemma readUDM_record_without_displayName:
  assumes g: "dn_uid dn = Some g"
    and blk: "\<forall>l\<in>set block. \<not> is_dn l \<and> \<not> is_displayName l"
    and post: "post = [] \<or> is_dn (hd post)"
  shows "\<exists>st rs. readUDM_run pre = Inr st \<and> readUDM (pre @ [dn] @ block @ post) = Inr rs
           \<and> length (udm st) < length rs
           \<and> uid (rs ! length (udm st)) = g \<and> name (rs ! length (udm st)) = []"
proof -
  let ?init = "\<lparr>udm = [], usr = None, stderr = []\<rparr>"
  obtain st where st: "readUDM_loop ?init pre = Inr st"
    using readUDM_loop_total by blast
  let ?m = "length (udm st)"
  let ?st1 = "st\<lparr>udm := udm st @ [UdmUser_init g []], usr := Some ?m\<rparr>"
  have s1: "readUDM_line st dn = Inr ?st1" using g by (rule readUDM_line_good_dn)
  obtain st2 where st2: "readUDM_loop ?st1 block = Inr st2"
    using readUDM_loop_total by blast
  obtain st3 where st3: "readUDM_loop st2 post = Inr st3"
    using readUDM_loop_total by blast
  have run: "readUDM_loop ?init (pre @ [dn] @ block @ post) = Inr st3"
    using st s1 st2 st3 by (simp add: readUDM_loop_append)
  from readUDM_loop_block [OF st2 blk]
  have n2: "map name (udm st2) = map name (udm st) @ [[]]"
    and u2: "map uid (udm st2) = map uid (udm st) @ [g]"
    and p2: "usr st2 = Some ?m"
    by (simp_all add: UdmUser_init_def)
  have len2: "length (udm st2) = Suc ?m"
    using n2 by (metis length_append_singleton length_map)
  have "take (Suc ?m) (udm st3) = take (Suc ?m) (udm st2)"
    using readUDM_loop_frozen [OF st3, of "Suc ?m"] len2 post by simp
  then have t: "take (Suc ?m) (udm st3) = udm st2" using len2 by simp
  then have len3: "?m < length (udm st3)"
    using len2 by (metis length_take lessI min_less_iff_conj)
  have "udm st3 ! ?m = udm st2 ! ?m"
    using t by (metis lessI nth_take)
  moreover have "name (udm st2 ! ?m) = []"
    using n2 len2 by (metis lessI nth_append_length nth_map length_map)
  moreover have "uid (udm st2 ! ?m) = g"
    using u2 len2 by (metis lessI nth_append_length nth_map length_map)
  ultimately show ?thesis
    using st run len3 by (simp add: readUDM_def readUDM_run_def)
qed

lemma udmMail_attach_empty:
  assumes "MailUser.name user = []" "name r = []"
  shows "nameMatch (MailUser.name user) (name r)
     \<and> udmMail user (rs1 @ [r]) =
         (udmMail user rs1)\<lparr>ucsnm := uid r,
                              MailUser.mls := MailUser.mls (udmMail user rs1) @ mls r\<rparr>
     \<and> set (mls r) \<subseteq> set (MailUser.mls (udmMail user (rs1 @ r # rs2)))
     \<and> ((\<forall>r'\<in>set rs2. \<not> nameMatch [] (name r') \<and> \<not> nameMatch [] (gecos r')) \<longrightarrow>
            ucsnm (udmMail user (rs1 @ r # rs2)) = uid r)"
proof -
  let ?u1 = "udmMail user rs1"
  let ?u2 = "?u1\<lparr>ucsnm := uid r, MailUser.mls := MailUser.mls ?u1 @ mls r\<rparr>"
  have n1: "MailUser.name ?u1 = []" using assms(1) by (simp add: udmMail_name)
  have m: "nameMatch (MailUser.name user) (name r)"
    using assms by (simp add: nameMatch_def)
  have a: "udmMail user (rs1 @ [r]) = ?u2"
    using n1 assms(2) by (simp add: udmMail_append nameMatch_def append_mls_eq)
  have e: "udmMail user (rs1 @ r # rs2) = udmMail ?u2 rs2"
    using a udmMail_append [of user "rs1 @ [r]" rs2] by simp
  obtain ms where "MailUser.mls (udmMail ?u2 rs2) = MailUser.mls ?u2 @ ms"
    using udmMail_mls_prefix by blast
  then have s: "set (mls r) \<subseteq> set (MailUser.mls (udmMail user (rs1 @ r # rs2)))"
    unfolding e by auto
  have "(\<forall>r'\<in>set rs2. \<not> nameMatch [] (name r') \<and> \<not> nameMatch [] (gecos r')) \<Longrightarrow>
            ucsnm (udmMail user (rs1 @ r # rs2)) = uid r"
  proof -
    assume "\<forall>r'\<in>set rs2. \<not> nameMatch [] (name r') \<and> \<not> nameMatch [] (gecos r')"
    then have "udmMail ?u2 rs2 = ?u2"
      using n1 by (intro udmMail_nomatch) simp
    then show ?thesis unfolding e by simp
  qed
  then show ?thesis using m a s by blast
qed

subsection \<open>The transliteration table\<close>

lemma replace_single:
  "replace [c] new s = concat (map (\<lambda>x. if x = c then new else [x]) s)"
  by (induction s) simp_all

lemma replace_single_set: "set (replace [c] new s) \<subseteq> (set s - {c}) \<union> set new"
  by (auto simp: replace_single split: if_splits)

lemma replace_single_id: "c \<notin> set s \<Longrightarrow> replace [c] new s = s"
  by (induction s) (simp_all add: replace_single)

lemma replace_table_clean:
  assumes "\<forall>p\<in>set tb. \<exists>c. fst p = [c]" "\<forall>p\<in>set tb. set (snd p) \<inter> T = {}"
  shows "set (foldl (\<lambda>nm (old, new). replace old new nm) s tb) \<inter> set (concat (map fst tb)) \<inter> T = {}"
  using assms
proof (induction tb rule: rev_induct)
  case Nil
  show ?case by simp
next
  case (snoc p tb)
  obtain c where c: "fst p = [c]" using snoc.prems(1) by auto
  have n: "set (snd p) \<inter> T = {}" using snoc.prems(2) by simp
  let ?y = "foldl (\<lambda>nm (old, new). replace old new nm) s tb"
  have ih: "set ?y \<inter> set (concat (map fst tb)) \<inter> T = {}"
    using snoc.IH snoc.prems by simp
  have "foldl (\<lambda>nm (old, new). replace old new nm) s (tb @ [p]) = replace [c] (snd p) ?y"
    using c by (cases p) simp
  moreover have "set (replace [c] (snd p) ?y) \<subseteq> (set ?y - {c}) \<union> set (snd p)"
    by (rule replace_single_set)
  ultimately show ?case using ih n c by auto
qed

lemma replace_table_id:
  assumes "\<forall>p\<in>set tb. \<exists>c. fst p = [c]" "set s \<inter> set (concat (map fst tb)) = {}"
  shows "foldl (\<lambda>nm (old, new). replace old new nm) s tb = s"
  using assms
proof (induction tb arbitrary: s)
  case Nil
  show ?case by simp
next
  case (Cons p tb)
  obtain c where c: "fst p = [c]" using Cons.prems(1) by auto
  have "c \<notin> set s" using Cons.prems(2) c by auto
  then have "replace (fst p) (snd p) s = s" using c by (simp add: replace_single_id)
  then have "foldl (\<lambda>nm (old, new). replace old new nm) s (p # tb)
           = foldl (\<lambda>nm (old, new). replace old new nm) s tb"
    by (cases p) simp
  then show ?case using Cons.IH [of s] Cons.prems by auto
qed

lemma replacements_single: "\<forall>p\<in>set replacements. \<exists>c. fst p = [c]"
  by (simp add: replacements_def asc_def)

lemma replacements_old: "\<forall>c\<in>set (concat (map fst replacements)). c = 45 \<or> 196 \<le> c"
  by (simp add: replacements_def asc_def)

lemma replacements_new: "\<forall>p\<in>set replacements. \<forall>c\<in>set (snd p). c \<noteq> 45 \<and> c < 196"
  by (simp add: replacements_def asc_def)

lemma replacements_new_clean:
  "\<forall>p\<in>set replacements. set (snd p) \<inter> set (concat (map fst replacements)) = {}"
proof
  fix p assume p: "p \<in> set replacements"
  show "set (snd p) \<inter> set (concat (map fst replacements)) = {}"
  proof (rule ccontr)
    assume "set (snd p) \<inter> set (concat (map fst replacements)) \<noteq> {}"
    then obtain c where c: "c \<in> set (snd p)" "c \<in> set (concat (map fst replacements))" by blast
    from c(1) p replacements_new have "c \<noteq> 45 \<and> c < 196" by blast
    moreover from c(2) replacements_old have "c = 45 \<or> 196 \<le> c" by blast
    ultimately show False by simp
  qed
qed

lemma strip_set: "set (strip cs s) \<subseteq> set s"
proof -
  have "set (strip cs s) \<subseteq> set (dropWhile (\<lambda>c. c \<in> set cs) s)"
    unfolding strip_def by (metis set_dropWhileD set_rev subsetI)
  then show ?thesis by (meson set_dropWhileD subsetD subsetI)
qed

lemma strip_length: "length (strip cs s) \<le> length s"
proof -
  have "length (strip cs s) \<le> length (dropWhile (\<lambda>c. c \<in> set cs) s)"
    unfolding strip_def by (metis length_dropWhile_le length_rev)
  then show ?thesis using length_dropWhile_le [of "\<lambda>c. c \<in> set cs" s] by linarith
qed

lemma normalizeName_clean:
  "set (normalizeName x) \<inter> set (concat (map fst replacements)) = {}"
proof -
  let ?z = "strip (asc '' '') (if take 3 x = asc ''Dr.'' then drop 3 x else x)"
  have "normalizeName x = foldl (\<lambda>nm (old, new). replace old new nm) ?z replacements"
    by (simp add: normalizeName_def Let_def)
  moreover have "set (foldl (\<lambda>nm (old, new). replace old new nm) ?z replacements)
      \<inter> set (concat (map fst replacements)) \<inter> set (concat (map fst replacements)) = {}"
    by (rule replace_table_clean [OF replacements_single replacements_new_clean])
  ultimately show ?thesis by (simp only: Int_assoc Int_absorb)
qed

lemma normalizeName_of_clean:
  assumes "set y \<inter> set (concat (map fst replacements)) = {}"
  shows "normalizeName y = strip (asc '' '') (if take 3 y = asc ''Dr.'' then drop 3 y else y)"
proof -
  let ?z = "strip (asc '' '') (if take 3 y = asc ''Dr.'' then drop 3 y else y)"
  have "set ?z \<subseteq> set y"
  proof (cases "take 3 y = asc ''Dr.''")
    case True
    have "set (strip (asc '' '') (drop 3 y)) \<subseteq> set (drop 3 y)" by (rule strip_set)
    also have "\<dots> \<subseteq> set y" by (rule set_drop_subset)
    finally show ?thesis using True by simp
  next
    case False
    then show ?thesis using strip_set [of "asc '' ''" y] by simp
  qed
  then have "set ?z \<inter> set (concat (map fst replacements)) = {}" using assms by blast
  from replace_table_id [OF replacements_single this]
  have "foldl (\<lambda>nm (old, new). replace old new nm) ?z replacements = ?z" .
  moreover have "normalizeName y = foldl (\<lambda>nm (old, new). replace old new nm) ?z replacements"
    by (simp add: normalizeName_def Let_def)
  ultimately show ?thesis by (simp only:)
qed

section \<open>The merge does not deduplicate\<close>

text \<open>
  C1. The merge is claimed to skip an email that the merged person already has, so that the
  merged sequence holds no duplicates. \<open>udmMail\<close> appends every email of every matching
  record without a test, unlike \<open>githubMail\<close> and the \<open>e-mail:\<close> branch of the parser. On a
  dump with two records of the same display name and the same address, the roster entry of
  that name gets the address twice; \<open>githubMail\<close> on the result skips the address.
\<close>

theorem udmMail_duplicates:
  "readUDM [asc ''DN: uid=u1,cn=users'' @ [10], asc ''  displayName: A'' @ [10],
            asc ''  e-mail: a@x'' @ [10],
            asc ''DN: uid=u2,cn=users'' @ [10], asc ''  displayName: A'' @ [10],
            asc ''  e-mail: a@x'' @ [10]]
     = Inr [\<lparr>uid = asc ''u1'', name = asc ''A'', gecos = [], mls = [asc ''a@x'']\<rparr>,
            \<lparr>uid = asc ''u2'', name = asc ''A'', gecos = [], mls = [asc ''a@x'']\<rparr>]
   \<and> udmMail (MailUser_init (asc ''gh'') (asc ''A''))
        [\<lparr>uid = asc ''u1'', name = asc ''A'', gecos = [], mls = [asc ''a@x'']\<rparr>,
         \<lparr>uid = asc ''u2'', name = asc ''A'', gecos = [], mls = [asc ''a@x'']\<rparr>]
     = \<lparr>ghnm = asc ''gh'', name = asc ''A'', ucsnm = asc ''u2'',
        mls = [asc ''a@x'', asc ''a@x'']\<rparr>
   \<and> \<not> distinct [asc ''a@x'', asc ''a@x'']
   \<and> githubMail \<lparr>ghnm = asc ''gh'', name = asc ''A'', ucsnm = asc ''u2'',
                   mls = [asc ''a@x'', asc ''a@x'']\<rparr> (Some (asc ''a@x''))
     = \<lparr>ghnm = asc ''gh'', name = asc ''A'', ucsnm = asc ''u2'',
        mls = [asc ''a@x'', asc ''a@x'']\<rparr>"
  by (simp add: parser_defs nameMatch_def append_mls_eq MailUser_init_def githubMail_def)

section \<open>Matching a transliterated name\<close>

text \<open>
  C2, as stated. The roster name is "\<open>A\<close>-umlaut\<open>. M\<close>-u-umlaut\<open>ller\<close>" (code points 196 and
  252). \<open>normalizeName\<close> writes the capital umlaut as \<open>Ae\<close>, so the normal form is
  \<open>Ae. Mueller\<close>, which differs from \<open>AE. Mueller\<close>: \<open>nameMatch\<close> is false, and for a
  record with that \<open>gecos\<close> and no display name the merge attaches nothing.
\<close>

theorem nameMatch_AE_Mueller_counterexample:
  "normalizeName ([196] @ asc ''. M'' @ [252] @ asc ''ller'') = asc ''Ae. Mueller''
   \<and> normalizeName (asc ''AE. Mueller'') = asc ''AE. Mueller''
   \<and> \<not> nameMatch ([196] @ asc ''. M'' @ [252] @ asc ''ller'') (asc ''AE. Mueller'')
   \<and> udmMail (MailUser_init (asc ''gh'') ([196] @ asc ''. M'' @ [252] @ asc ''ller''))
        [\<lparr>uid = asc ''am'', name = [], gecos = asc ''AE. Mueller'', mls = [asc ''a@x'']\<rparr>]
     = MailUser_init (asc ''gh'') ([196] @ asc ''. M'' @ [252] @ asc ''ller'')"
  by (simp add: name_defs MailUser_init_def)

text \<open>
  C2, amended. With the fallback name \<open>Ae. Mueller\<close> the two names differ as strings and
  have the same normal form, so \<open>nameMatch\<close> is true through normalisation, and the merge
  sets the directory id to the id of the record and appends its emails, whatever the other
  fields of the record and of the roster entry are.
\<close>

theorem nameMatch_Ae_Mueller:
  "[196] @ asc ''. M'' @ [252] @ asc ''ller'' \<noteq> asc ''Ae. Mueller''
   \<and> normalizeName ([196] @ asc ''. M'' @ [252] @ asc ''ller'') = normalizeName (asc ''Ae. Mueller'')
   \<and> nameMatch ([196] @ asc ''. M'' @ [252] @ asc ''ller'') (asc ''Ae. Mueller'')
   \<and> udmMail \<lparr>ghnm = g, name = [196] @ asc ''. M'' @ [252] @ asc ''ller'', ucsnm = u0, mls = m0\<rparr>
        [\<lparr>uid = u, name = n, gecos = asc ''Ae. Mueller'', mls = ms\<rparr>]
     = \<lparr>ghnm = g, name = [196] @ asc ''. M'' @ [252] @ asc ''ller'', ucsnm = u, mls = m0 @ ms\<rparr>"
proof -
  have m: "nameMatch ([196] @ asc ''. M'' @ [252] @ asc ''ller'') (asc ''Ae. Mueller'')"
    by (simp add: name_defs)
  have "udmMail \<lparr>ghnm = g, name = [196] @ asc ''. M'' @ [252] @ asc ''ller'', ucsnm = u0, mls = m0\<rparr>
        [\<lparr>uid = u, name = n, gecos = asc ''Ae. Mueller'', mls = ms\<rparr>]
     = \<lparr>ghnm = g, name = [196] @ asc ''. M'' @ [252] @ asc ''ller'', ucsnm = u, mls = m0 @ ms\<rparr>"
    using m by (simp add: append_mls_eq)
  moreover have "[196] @ asc ''. M'' @ [252] @ asc ''ller'' \<noteq> asc ''Ae. Mueller''"
    by (simp add: asc_def)
  moreover have "normalizeName ([196] @ asc ''. M'' @ [252] @ asc ''ller'') = normalizeName (asc ''Ae. Mueller'')"
    by (simp add: name_defs)
  ultimately show ?thesis using m by blast
qed

section \<open>Invariants of the parser's output\<close>

text \<open>
  C8. For every input, \<open>readUDM\<close> returns, and every record of the returned list has an
  email list without duplicate strings, however the \<open>mailForwardAddress:\<close> and \<open>e-mail:\<close>
  lines repeat or interleave.
\<close>

theorem readUDM_emails_distinct:
  "\<exists>rs. readUDM lns = Inr rs \<and> (\<forall>r\<in>set rs. distinct (mls r))"
proof -
  obtain st where st: "readUDM_run lns = Inr st"
    using readUDM_loop_total unfolding readUDM_run_def by blast
  then have "\<forall>u\<in>set (udm st). distinct (mls u)"
    unfolding readUDM_run_def using readUDM_loop_distinct by fastforce
  then show ?thesis using st by (simp add: readUDM_def)
qed


theorem readUDM_emails_distinct_witness:
  "readUDM [asc ''DN: uid=u,x'' @ [10], asc ''  e-mail: a@x'' @ [10],
            asc ''  mailForwardAddress: b@x'' @ [10], asc ''  e-mail: a@x'' @ [10],
            asc ''  mailForwardAddress: a@x'' @ [10], asc ''  mailForwardAddress: b@x'' @ [10]]
     = Inr [\<lparr>uid = asc ''u'', name = [], gecos = [], mls = [asc ''b@x'', asc ''a@x'']\<rparr>]
   \<and> distinct (mls \<lparr>uid = asc ''u'', name = [], gecos = [], mls = [asc ''b@x'', asc ''a@x'']\<rparr>)"
proof -
  let ?L = "[asc ''DN: uid=u,x'' @ [10], asc ''  e-mail: a@x'' @ [10],
            asc ''  mailForwardAddress: b@x'' @ [10], asc ''  e-mail: a@x'' @ [10],
            asc ''  mailForwardAddress: a@x'' @ [10], asc ''  mailForwardAddress: b@x'' @ [10]]"
  let ?R = "\<lparr>uid = asc ''u'', name = [], gecos = [], mls = [asc ''b@x'', asc ''a@x'']\<rparr>"
  have e: "readUDM ?L = Inr [?R]"
    by (simp add: parser_defs)
  obtain rs where rs: "readUDM ?L = Inr rs" "\<forall>r\<in>set rs. distinct (mls r)"
    using readUDM_emails_distinct [of ?L] by blast
  from rs e have "distinct (mls ?R)" by auto
  with e show ?thesis by blast
qed

section \<open>The parser never raises\<close>

text \<open>
  C7. \<open>readUDM\<close> returns a record list for every sequence of lines: no branch of the loop
  raises (\<open>remove\<close> is called only on a value that is in the list, and an attribute of
  \<open>usr\<close> is touched only when \<open>usr\<close> is not \<open>None\<close>). After any lines \<open>pre\<close>, an identifier
  line \<open>bad\<close> without an id only adds a warning and sets \<open>usr\<close> to \<open>None\<close>; the lines \<open>flds\<close>
  that follow, none of them an identifier line, change nothing; and a later identifier line
  \<open>good\<close> with id \<open>g\<close> appends a new record for \<open>g\<close> and makes it the current one. The
  list that \<open>readUDM\<close> returns is the one it returns for \<open>pre\<close> as long as no valid identifier
  line has come, and that list with the new record for \<open>g\<close> at its end after \<open>good\<close>;
  whatever lines \<open>post\<close> follow, the returned list holds the ids of \<open>pre\<close>, then \<open>g\<close>, then
  the ids of the identifier lines of \<open>post\<close>.
\<close>

theorem readUDM_total:
  "(\<exists>rs. readUDM lns = Inr rs)
   \<and> (\<forall>pre bad flds good g.
         is_dn bad \<and> dn_uid bad = None \<and> (\<forall>l\<in>set flds. \<not> is_dn l) \<and> dn_uid good = Some g \<longrightarrow>
         (\<exists>st. readUDM_run pre = Inr st
             \<and> readUDM pre = Inr (udm st)
             \<and> readUDM_run (pre @ [bad]) =
                 Inr (st\<lparr>usr := None,
                         stderr := stderr st @ [dn_warning (strip [13, 10] bad)]\<rparr>)
             \<and> readUDM (pre @ [bad]) = Inr (udm st)
             \<and> readUDM_run (pre @ [bad] @ flds) = readUDM_run (pre @ [bad])
             \<and> readUDM (pre @ [bad] @ flds) = Inr (udm st)
             \<and> readUDM_run (pre @ [bad] @ flds @ [good]) =
                 Inr (st\<lparr>udm := udm st @ [UdmUser_init g []],
                         usr := Some (length (udm st)),
                         stderr := stderr st @ [dn_warning (strip [13, 10] bad)]\<rparr>)
             \<and> readUDM (pre @ [bad] @ flds @ [good]) = Inr (udm st @ [UdmUser_init g []])
             \<and> (\<forall>post. \<exists>rs. readUDM (pre @ [bad] @ flds @ [good] @ post) = Inr rs
                    \<and> map uid rs = map uid (udm st) @ g # List.map_filter dn_uid post)))"
proof (intro conjI allI impI)
  obtain st where "readUDM_run lns = Inr st"
    using readUDM_loop_total unfolding readUDM_run_def by blast
  then show "\<exists>rs. readUDM lns = Inr rs" by (simp add: readUDM_def)
next
  fix pre bad flds good g
  assume a: "is_dn bad \<and> dn_uid bad = None \<and> (\<forall>l\<in>set flds. \<not> is_dn l) \<and> dn_uid good = Some g"
  let ?init = "\<lparr>udm = [], usr = None, stderr = []\<rparr>"
  obtain st where st: "readUDM_run pre = Inr st"
    using readUDM_loop_total unfolding readUDM_run_def by blast
  let ?st1 = "st\<lparr>usr := None, stderr := stderr st @ [dn_warning (strip [13, 10] bad)]\<rparr>"
  let ?st2 = "st\<lparr>udm := udm st @ [UdmUser_init g []], usr := Some (length (udm st)),
                 stderr := stderr st @ [dn_warning (strip [13, 10] bad)]\<rparr>"
  have b: "readUDM_run (pre @ [bad]) = Inr ?st1"
    using st a by (simp add: readUDM_run_def readUDM_loop_append readUDM_line_bad_dn)
  have f: "readUDM_loop ?st1 flds = Inr ?st1"
    using a by (intro readUDM_loop_inactive) simp_all
  have c: "readUDM_run (pre @ [bad] @ flds) = Inr ?st1"
    using st a f by (simp add: readUDM_run_def readUDM_loop_append readUDM_line_bad_dn)
  have d: "readUDM_run (pre @ [bad] @ flds @ [good]) = Inr ?st2"
    using st a f
    by (simp add: readUDM_run_def readUDM_loop_append readUDM_line_bad_dn readUDM_line_good_dn)
  have r0: "readUDM pre = Inr (udm st)" using st by (simp add: readUDM_def)
  have r1: "readUDM (pre @ [bad]) = Inr (udm st)" using b by (simp add: readUDM_def)
  have r2: "readUDM (pre @ [bad] @ flds) = Inr (udm st)" using c by (simp add: readUDM_def)
  have r3: "readUDM (pre @ [bad] @ flds @ [good]) = Inr (udm st @ [UdmUser_init g []])"
    using d by (simp add: readUDM_def)
  have r4: "\<forall>post. \<exists>rs. readUDM (pre @ [bad] @ flds @ [good] @ post) = Inr rs
                    \<and> map uid rs = map uid (udm st) @ g # List.map_filter dn_uid post"
  proof
    fix post
    obtain st5 where st5: "readUDM_loop ?st2 post = Inr st5"
      using readUDM_loop_total by blast
    have d': "readUDM_loop ?init ((pre @ [bad] @ flds @ [good]) @ post) = Inr st5"
      using d st5 by (simp only: readUDM_loop_append readUDM_run_def sum.case)
    then have "readUDM (pre @ [bad] @ flds @ [good] @ post) = Inr (udm st5)"
      by (simp add: readUDM_def readUDM_run_def)
    moreover have "map uid (udm st5) = map uid (udm st) @ g # List.map_filter dn_uid post"
      using readUDM_loop_uids [OF st5] by (simp add: UdmUser_init_def)
    ultimately show "\<exists>rs. readUDM (pre @ [bad] @ flds @ [good] @ post) = Inr rs
                    \<and> map uid rs = map uid (udm st) @ g # List.map_filter dn_uid post"
      by blast
  qed
  show "\<exists>st. readUDM_run pre = Inr st
             \<and> readUDM pre = Inr (udm st)
             \<and> readUDM_run (pre @ [bad]) =
                 Inr (st\<lparr>usr := None,
                         stderr := stderr st @ [dn_warning (strip [13, 10] bad)]\<rparr>)
             \<and> readUDM (pre @ [bad]) = Inr (udm st)
             \<and> readUDM_run (pre @ [bad] @ flds) = readUDM_run (pre @ [bad])
             \<and> readUDM (pre @ [bad] @ flds) = Inr (udm st)
             \<and> readUDM_run (pre @ [bad] @ flds @ [good]) =
                 Inr (st\<lparr>udm := udm st @ [UdmUser_init g []],
                         usr := Some (length (udm st)),
                         stderr := stderr st @ [dn_warning (strip [13, 10] bad)]\<rparr>)
             \<and> readUDM (pre @ [bad] @ flds @ [good]) = Inr (udm st @ [UdmUser_init g []])
             \<and> (\<forall>post. \<exists>rs. readUDM (pre @ [bad] @ flds @ [good] @ post) = Inr rs
                    \<and> map uid rs = map uid (udm st) @ g # List.map_filter dn_uid post)"
    using st b c d r0 r1 r2 r3 r4 by (intro exI [of _ st] conjI) simp_all
qed

theorem readUDM_total_witness:
  "readUDM_run [asc ''DN: uid=u0,x'' @ [10], asc ''DN: cn=nobody'' @ [10],
                asc ''  e-mail: a@x'' @ [10], asc ''DN: uid=u1,x'' @ [10]]
     = Inr \<lparr>udm = [UdmUser_init (asc ''u0'') [], UdmUser_init (asc ''u1'') []], usr = Some 1,
            stderr = [asc ''Warning: DN line without uid= match: DN: cn=nobody'']\<rparr>
   \<and> readUDM [asc ''DN: uid=u0,x'' @ [10], asc ''DN: cn=nobody'' @ [10],
              asc ''  e-mail: a@x'' @ [10], asc ''DN: uid=u1,x'' @ [10]]
     = Inr [UdmUser_init (asc ''u0'') [], UdmUser_init (asc ''u1'') []]"
proof -
  have h: "is_dn (asc ''DN: cn=nobody'' @ [10]) \<and> dn_uid (asc ''DN: cn=nobody'' @ [10]) = None
        \<and> (\<forall>l\<in>set [asc ''  e-mail: a@x'' @ [10]]. \<not> is_dn l)
        \<and> dn_uid (asc ''DN: uid=u1,x'' @ [10]) = Some (asc ''u1'')"
    by (simp add: is_dn_def dn_uid_def uidre_match_def strip_def asc_def)
  have p: "readUDM_run [asc ''DN: uid=u0,x'' @ [10]]
             = Inr \<lparr>udm = [UdmUser_init (asc ''u0'') []], usr = Some 0, stderr = []\<rparr>"
    by (simp add: parser_defs)
  from readUDM_total [of "[]", THEN conjunct2, rule_format, OF h, of "[asc ''DN: uid=u0,x'' @ [10]]"]
  obtain st where st: "readUDM_run [asc ''DN: uid=u0,x'' @ [10]] = Inr st"
    "readUDM_run ([asc ''DN: uid=u0,x'' @ [10]] @ [asc ''DN: cn=nobody'' @ [10]]
        @ [asc ''  e-mail: a@x'' @ [10]] @ [asc ''DN: uid=u1,x'' @ [10]]) =
       Inr (st\<lparr>udm := udm st @ [UdmUser_init (asc ''u1'') []], usr := Some (length (udm st)),
               stderr := stderr st @ [dn_warning (strip [13, 10] (asc ''DN: cn=nobody'' @ [10]))]\<rparr>)"
    "readUDM ([asc ''DN: uid=u0,x'' @ [10]] @ [asc ''DN: cn=nobody'' @ [10]]
        @ [asc ''  e-mail: a@x'' @ [10]] @ [asc ''DN: uid=u1,x'' @ [10]]) =
       Inr (udm st @ [UdmUser_init (asc ''u1'') []])"
    by blast
  from st(1) p have e: "st = \<lparr>udm = [UdmUser_init (asc ''u0'') []], usr = Some 0, stderr = []\<rparr>"
    by simp
  have w: "dn_warning (strip [13, 10] (asc ''DN: cn=nobody'' @ [10]))
             = asc ''Warning: DN line without uid= match: DN: cn=nobody''"
    by (simp add: dn_warning_def strip_def asc_def)
  show ?thesis using st(2,3) unfolding e w by simp
qed


section \<open>The ids of the parsed records\<close>

text \<open>
  C5, as stated. The group of the pattern is \<open>[^,]*\<close>, which matches the empty string: the
  line \<open>DN: uid=,cn=users\<close> starts a record whose id is empty, and the record is in the
  output.
\<close>

theorem readUDM_empty_id_counterexample:
  "readUDM [asc ''DN: uid=,cn=users'' @ [10], asc ''  e-mail: a@x'' @ [10]]
     = Inr [\<lparr>uid = [], name = [], gecos = [], mls = [asc ''a@x'']\<rparr>]
   \<and> uid \<lparr>uid = [], name = [], gecos = [], mls = [asc ''a@x'']\<rparr> = []"
  by (simp add: parser_defs)

text \<open>
  C5, amended. The ids of the records of the output are, in line order, the ids found in the
  identifier lines that have one: the text between \<open>DN: uid=\<close> and the first comma after
  it. Such an id holds no comma, and it is empty exactly when the comma follows \<open>uid=\<close>
  at once. An identifier line without an id adds no record, only a warning, and the run
  goes on: the warnings on \<open>sys.stderr\<close> are those of these lines, in line order.
\<close>

theorem readUDM_ids:
  "\<exists>st. readUDM_run lns = Inr st \<and> readUDM lns = Inr (udm st)
      \<and> map uid (udm st) = List.map_filter dn_uid lns
      \<and> stderr st = map (\<lambda>l. dn_warning (strip [13, 10] l))
                       (filter (\<lambda>l. is_dn l \<and> dn_uid l = None) lns)
      \<and> (\<forall>r\<in>set (udm st). 44 \<notin> set (uid r))
      \<and> (\<forall>l g. dn_uid l = Some g \<longrightarrow>
             (g = [] \<longleftrightarrow> take 1 (drop 8 (strip [13, 10] l)) = [44]))"
proof -
  obtain st where st: "readUDM_run lns = Inr st"
    using readUDM_loop_total unfolding readUDM_run_def by blast
  then have u: "map uid (udm st) = List.map_filter dn_uid lns"
    and w: "stderr st = map (\<lambda>l. dn_warning (strip [13, 10] l))
                       (filter (\<lambda>l. is_dn l \<and> dn_uid l = None) lns)"
    using readUDM_loop_uids [of "\<lparr>udm = [], usr = None, stderr = []\<rparr>" lns st]
    by (simp_all add: readUDM_run_def)
  have c: "\<forall>r\<in>set (udm st). 44 \<notin> set (uid r)"
  proof
    fix r assume "r \<in> set (udm st)"
    then have "uid r \<in> set (List.map_filter dn_uid lns)" using u by (metis image_eqI set_map)
    then obtain l where "dn_uid l = Some (uid r)"
      by (auto simp: map_filter_def)
    then show "44 \<notin> set (uid r)" by (rule dn_uid_no_comma)
  qed
  show ?thesis using st u w c dn_uid_empty_iff by (auto simp: readUDM_def)
qed


theorem readUDM_ids_witness:
  "readUDM_run [asc ''DN: uid=u0,x'' @ [10], asc ''DN: cn=nobody'' @ [10], asc ''DN: uid=,y'' @ [10]]
     = Inr \<lparr>udm = [UdmUser_init (asc ''u0'') [], UdmUser_init [] []], usr = Some 1,
            stderr = [asc ''Warning: DN line without uid= match: DN: cn=nobody'']\<rparr>
   \<and> List.map_filter dn_uid
        [asc ''DN: uid=u0,x'' @ [10], asc ''DN: cn=nobody'' @ [10], asc ''DN: uid=,y'' @ [10]]
     = [asc ''u0'', []]
   \<and> 44 \<notin> set (uid (UdmUser_init (asc ''u0'') []))"
proof -
  let ?L = "[asc ''DN: uid=u0,x'' @ [10], asc ''DN: cn=nobody'' @ [10], asc ''DN: uid=,y'' @ [10]]"
  let ?S = "\<lparr>udm = [UdmUser_init (asc ''u0'') [], UdmUser_init [] []], usr = Some 1,
            stderr = [asc ''Warning: DN line without uid= match: DN: cn=nobody'']\<rparr>"
  have e: "readUDM_run ?L = Inr ?S"
    by (simp add: parser_defs)
  obtain st where st: "readUDM_run ?L = Inr st" "map uid (udm st) = List.map_filter dn_uid ?L"
      "\<forall>r\<in>set (udm st). 44 \<notin> set (uid r)"
    using readUDM_ids [of ?L] by blast
  from st(1) e have "st = ?S" by simp
  with st(2,3) have "List.map_filter dn_uid ?L = [asc ''u0'', []]"
     and "44 \<notin> set (uid (UdmUser_init (asc ''u0'') []))"
    by (simp_all add: UdmUser_init_def)
  with e show ?thesis by blast
qed

section \<open>Where the id of an identifier line is looked for\<close>

text \<open>
  C3, as stated. \<open>uidre.match\<close> tries the pattern only at the start of the text after \<open>DN: \<close>.
  In \<open>DN: cn=a,uid=bob,dc=x\<close> the segment \<open>uid=bob,\<close> comes later: no record is started,
  the line is warned about.
\<close>

theorem readUDM_uid_later_counterexample:
  "readUDM_run [asc ''DN: cn=a,uid=bob,dc=x'' @ [10]]
     = Inr \<lparr>udm = [], usr = None,
            stderr = [asc ''Warning: DN line without uid= match: DN: cn=a,uid=bob,dc=x'']\<rparr>
   \<and> readUDM [asc ''DN: cn=a,uid=bob,dc=x'' @ [10]] = Inr []"
  by (simp add: parser_defs)

text \<open>
  C3, amended. For every line \<open>DN: uid=<ID>,<anything>\<close>, with \<open>uid=\<close> directly after the
  prefix \<open>DN: \<close> and an \<open><ID>\<close> without comma, after any lines \<open>pre\<close>: the parser appends a
  new record whose id is \<open><ID>\<close>, with no names and no emails, and makes it the current one.
\<close>

theorem readUDM_uid_first:
  assumes "44 \<notin> set ident"
  shows "\<exists>st. readUDM_run pre = Inr st
           \<and> readUDM_run (pre @ [asc ''DN: uid='' @ ident @ 44 # rest]) =
               Inr (st\<lparr>udm := udm st @ [\<lparr>uid = ident, name = [], gecos = [], mls = []\<rparr>],
                       usr := Some (length (udm st))\<rparr>)
           \<and> readUDM (pre @ [asc ''DN: uid='' @ ident @ 44 # rest]) =
               Inr (udm st @ [\<lparr>uid = ident, name = [], gecos = [], mls = []\<rparr>])"
proof -
  obtain st where st: "readUDM_run pre = Inr st"
    using readUDM_loop_total unfolding readUDM_run_def by blast
  have "readUDM_line st (asc ''DN: uid='' @ ident @ 44 # rest) =
          Inr (st\<lparr>udm := udm st @ [UdmUser_init ident []], usr := Some (length (udm st))\<rparr>)"
    using dn_uid_line [OF assms] by (rule readUDM_line_good_dn)
  then have "readUDM_run (pre @ [asc ''DN: uid='' @ ident @ 44 # rest]) =
               Inr (st\<lparr>udm := udm st @ [\<lparr>uid = ident, name = [], gecos = [], mls = []\<rparr>],
                       usr := Some (length (udm st))\<rparr>)"
    using st by (simp add: readUDM_run_def readUDM_loop_append UdmUser_init_def)
  then show ?thesis using st by (simp add: readUDM_def)
qed

theorem readUDM_uid_first_witness:
  "44 \<notin> set (asc ''bob'')
   \<and> readUDM ([asc ''DN: uid=al,x'' @ [10]] @ [asc ''DN: uid='' @ asc ''bob'' @ 44 # asc ''cn=users'' @ [10]])
     = Inr [\<lparr>uid = asc ''al'', name = [], gecos = [], mls = []\<rparr>,
            \<lparr>uid = asc ''bob'', name = [], gecos = [], mls = []\<rparr>]"
proof -
  have h: "44 \<notin> set (asc ''bob'')" by (simp add: asc_def)
  have p: "readUDM_run [asc ''DN: uid=al,x'' @ [10]]
             = Inr \<lparr>udm = [\<lparr>uid = asc ''al'', name = [], gecos = [], mls = []\<rparr>],
                    usr = Some 0, stderr = []\<rparr>"
    by (simp add: parser_defs)
  from readUDM_uid_first [OF h, of "[asc ''DN: uid=al,x'' @ [10]]" "asc ''cn=users'' @ [10]"]
  show ?thesis using h unfolding p by auto
qed

section \<open>The order of the emails of a record\<close>

text \<open>
  C6. The record with the field lines \<open>mailForwardAddress: a@x\<close>, \<open>e-mail: b@x\<close>,
  \<open>mailForwardAddress: c@x\<close>, in this order, ends with the emails \<open>[c@x, a@x, b@x]\<close>. In
  general, for a current record \<open>i\<close> and a value \<open>v\<close> (a line keeps its value when the value
  does not end in a line-end character): a \<open>mailForwardAddress:\<close> line puts \<open>v\<close> at the front
  after \<open>remove\<close> has taken a prior occurrence away, and an \<open>e-mail:\<close> line appends \<open>v\<close> at
  the end only when it is not in the list. (The list has no duplicates, so the prior
  occurrence is the only one.)
\<close>

theorem readUDM_forward_order:
  "readUDM [asc ''DN: uid=u,x'' @ [10], asc ''  mailForwardAddress: a@x'' @ [10],
            asc ''  e-mail: b@x'' @ [10], asc ''  mailForwardAddress: c@x'' @ [10]]
     = Inr [\<lparr>uid = asc ''u'', name = [], gecos = [],
             mls = [asc ''c@x'', asc ''a@x'', asc ''b@x'']\<rparr>]
   \<and> (\<forall>st i v. usr st = Some i \<and> (v = [] \<or> last v \<notin> {13, 10}) \<longrightarrow>
          readUDM_line st (asc ''  mailForwardAddress: '' @ v) =
            Inr (st\<lparr>udm := (udm st)[i := (udm st ! i)\<lparr>mls := v # remove1 v (mls (udm st ! i))\<rparr>]\<rparr>)
        \<and> readUDM_line st (asc ''  e-mail: '' @ v) =
            Inr (st\<lparr>udm := (udm st)[i := (udm st ! i)
                   \<lparr>mls := if v \<in> set (mls (udm st ! i)) then mls (udm st ! i)
                           else mls (udm st ! i) @ [v]\<rparr>]\<rparr>))"
proof (intro conjI allI impI)
  show "readUDM [asc ''DN: uid=u,x'' @ [10], asc ''  mailForwardAddress: a@x'' @ [10],
            asc ''  e-mail: b@x'' @ [10], asc ''  mailForwardAddress: c@x'' @ [10]]
     = Inr [\<lparr>uid = asc ''u'', name = [], gecos = [],
             mls = [asc ''c@x'', asc ''a@x'', asc ''b@x'']\<rparr>]"
    by (simp add: parser_defs)
next
  fix st :: readUDM_state and i and v :: str
  assume a: "usr st = Some i \<and> (v = [] \<or> last v \<notin> {13, 10})"
  have "asc ''  mailForwardAddress: '' @ v = asc ''  mailForwardAddress:'' @ 32 # v"
    by (simp add: asc_def)
  then show "readUDM_line st (asc ''  mailForwardAddress: '' @ v) =
            Inr (st\<lparr>udm := (udm st)[i := (udm st ! i)\<lparr>mls := v # remove1 v (mls (udm st ! i))\<rparr>]\<rparr>)"
    using a field_mailForwardAddress [of st i v 32] by (simp add: set_usr_def)
next
  fix st :: readUDM_state and i and v :: str
  assume a: "usr st = Some i \<and> (v = [] \<or> last v \<notin> {13, 10})"
  have "asc ''  e-mail: '' @ v = asc ''  e-mail:'' @ 32 # v"
    by (simp add: asc_def)
  then show "readUDM_line st (asc ''  e-mail: '' @ v) =
            Inr (st\<lparr>udm := (udm st)[i := (udm st ! i)
                   \<lparr>mls := if v \<in> set (mls (udm st ! i)) then mls (udm st ! i)
                           else mls (udm st ! i) @ [v]\<rparr>]\<rparr>)"
    using a field_email [of st i v 32] by (simp add: set_usr_def)
qed

theorem readUDM_forward_order_witness:
  "readUDM_line \<lparr>udm = [\<lparr>uid = asc ''u'', name = [], gecos = [], mls = [asc ''a@x'', asc ''b@x'']\<rparr>],
                  usr = Some 0, stderr = []\<rparr> (asc ''  mailForwardAddress: '' @ asc ''b@x'')
     = Inr \<lparr>udm = [\<lparr>uid = asc ''u'', name = [], gecos = [], mls = [asc ''b@x'', asc ''a@x'']\<rparr>],
            usr = Some 0, stderr = []\<rparr>
   \<and> readUDM_line \<lparr>udm = [\<lparr>uid = asc ''u'', name = [], gecos = [], mls = [asc ''a@x'', asc ''b@x'']\<rparr>],
                  usr = Some 0, stderr = []\<rparr> (asc ''  e-mail: '' @ asc ''c@x'')
     = Inr \<lparr>udm = [\<lparr>uid = asc ''u'', name = [], gecos = [],
                    mls = [asc ''a@x'', asc ''b@x'', asc ''c@x'']\<rparr>],
            usr = Some 0, stderr = []\<rparr>"
proof -
  let ?st = "\<lparr>udm = [\<lparr>uid = asc ''u'', name = [], gecos = [], mls = [asc ''a@x'', asc ''b@x'']\<rparr>],
                  usr = Some 0, stderr = []\<rparr>"
  have h1: "usr ?st = Some 0 \<and> (asc ''b@x'' = [] \<or> last (asc ''b@x'') \<notin> {13, 10})"
    by (simp add: asc_def)
  have h2: "usr ?st = Some 0 \<and> (asc ''c@x'' = [] \<or> last (asc ''c@x'') \<notin> {13, 10})"
    by (simp add: asc_def)
  from readUDM_forward_order [THEN conjunct2, rule_format, OF h1, THEN conjunct1]
       readUDM_forward_order [THEN conjunct2, rule_format, OF h2, THEN conjunct2]
  show ?thesis by (simp add: asc_def)
qed

section \<open>The value of a field line\<close>

text \<open>
  C9. The tests of the field lines compare the line up to the colon of the key, and the
  value is the line from two positions after the colon on: whatever code point \<open>c\<close> follows
  the colon is skipped. So \<open>  e-mail:x@y\<close> is taken as an email line and stores \<open>@y\<close>. This
  holds for the four keys, for every current record \<open>i\<close>.
\<close>

theorem readUDM_value_offset:
  "readUDM [asc ''DN: uid=u,x'' @ [10], asc ''  e-mail:x@y'' @ [10]]
     = Inr [\<lparr>uid = asc ''u'', name = [], gecos = [], mls = [asc ''@y'']\<rparr>]
   \<and> (\<forall>st i c v. usr st = Some i \<and> (v = [] \<or> last v \<notin> {13, 10}) \<longrightarrow>
          readUDM_line st (asc ''  displayName:'' @ c # v) =
            Inr (set_usr i (\<lambda>u. u\<lparr>name := v\<rparr>) st)
        \<and> readUDM_line st (asc ''  mailForwardAddress:'' @ c # v) =
            Inr (set_usr i (\<lambda>u. u\<lparr>mls := v # remove1 v (mls (udm st ! i))\<rparr>) st)
        \<and> readUDM_line st (asc ''  e-mail:'' @ c # v) =
            Inr (if v \<notin> set (mls (udm st ! i))
                 then set_usr i (\<lambda>u. u\<lparr>mls := mls u @ [v]\<rparr>) st else st)
        \<and> readUDM_line st (asc ''  gecos:'' @ c # v) =
            Inr (set_usr i (\<lambda>u. u\<lparr>gecos := v\<rparr>) st))"
proof -
  have "readUDM [asc ''DN: uid=u,x'' @ [10], asc ''  e-mail:x@y'' @ [10]]
     = Inr [\<lparr>uid = asc ''u'', name = [], gecos = [], mls = [asc ''@y'']\<rparr>]"
    by (simp add: parser_defs)
  moreover have "\<And>st i c v. usr st = Some i \<and> (v = [] \<or> last v \<notin> {13, 10}) \<Longrightarrow>
          readUDM_line st (asc ''  displayName:'' @ c # v) =
            Inr (set_usr i (\<lambda>u. u\<lparr>name := v\<rparr>) st)"
    by (rule field_displayName) simp_all
  moreover have "\<And>st i c v. usr st = Some i \<and> (v = [] \<or> last v \<notin> {13, 10}) \<Longrightarrow>
          readUDM_line st (asc ''  mailForwardAddress:'' @ c # v) =
            Inr (set_usr i (\<lambda>u. u\<lparr>mls := v # remove1 v (mls (udm st ! i))\<rparr>) st)"
    by (rule field_mailForwardAddress) simp_all
  moreover have "\<And>st i c v. usr st = Some i \<and> (v = [] \<or> last v \<notin> {13, 10}) \<Longrightarrow>
          readUDM_line st (asc ''  e-mail:'' @ c # v) =
            Inr (if v \<notin> set (mls (udm st ! i))
                 then set_usr i (\<lambda>u. u\<lparr>mls := mls u @ [v]\<rparr>) st else st)"
    by (rule field_email) simp_all
  moreover have "\<And>st i c v. usr st = Some i \<and> (v = [] \<or> last v \<notin> {13, 10}) \<Longrightarrow>
          readUDM_line st (asc ''  gecos:'' @ c # v) =
            Inr (set_usr i (\<lambda>u. u\<lparr>gecos := v\<rparr>) st)"
    by (rule field_gecos) simp_all
  ultimately show ?thesis by (intro conjI allI impI)
qed

theorem readUDM_value_offset_witness:
  "readUDM_line \<lparr>udm = [\<lparr>uid = asc ''u'', name = [], gecos = [], mls = []\<rparr>],
                  usr = Some 0, stderr = []\<rparr> (asc ''  displayName:'' @ 74 # asc ''ane'')
     = Inr \<lparr>udm = [\<lparr>uid = asc ''u'', name = asc ''ane'', gecos = [], mls = []\<rparr>],
            usr = Some 0, stderr = []\<rparr>"
proof -
  let ?st = "\<lparr>udm = [\<lparr>uid = asc ''u'', name = [], gecos = [], mls = []\<rparr>],
                  usr = Some 0, stderr = []\<rparr>"
  have h: "usr ?st = Some 0 \<and> (asc ''ane'' = [] \<or> last (asc ''ane'') \<notin> {13, 10})"
    by (simp add: asc_def)
  from readUDM_value_offset [THEN conjunct2, rule_format, OF h, THEN conjunct1, of 74]
  show ?thesis by (simp add: set_usr_def)
qed


section \<open>Records without a display name and roster entries without a name\<close>

text \<open>
  C10. A record of the dump whose block has no \<open>displayName:\<close> line keeps the empty name
  that the constructor gave it: if the identifier line \<open>dn\<close> with id \<open>g\<close> comes after the
  lines \<open>pre\<close>, the lines \<open>block\<close> of the record hold neither an identifier line nor a
  display name, and \<open>post\<close> is empty or begins with an identifier line, then the output has
  a record with id \<open>g\<close> and the empty name at the position after the records of \<open>pre\<close>. For a
  roster entry with the empty name and a record \<open>r\<close> with the empty name, \<open>nameMatch\<close>
  holds by equality of the two strings; the iteration of \<open>udmMail\<close> for \<open>r\<close> sets the
  directory id to the id of \<open>r\<close> and appends its emails; the emails stay in the result
  whatever records follow, and the id stays unless a later record matches as well.
\<close>

theorem udmMail_empty_name:
  "(\<forall>pre dn block post g.
      dn_uid dn = Some g \<and> (\<forall>l\<in>set block. \<not> is_dn l \<and> \<not> is_displayName l)
      \<and> (post = [] \<or> is_dn (hd post)) \<longrightarrow>
      (\<exists>st rs. readUDM_run pre = Inr st \<and> readUDM (pre @ [dn] @ block @ post) = Inr rs
           \<and> length (udm st) < length rs
           \<and> uid (rs ! length (udm st)) = g \<and> name (rs ! length (udm st)) = []))
   \<and> (\<forall>user r rs1 rs2. MailUser.name user = [] \<and> name r = [] \<longrightarrow>
        nameMatch (MailUser.name user) (name r)
      \<and> udmMail user (rs1 @ [r]) =
         (udmMail user rs1)\<lparr>ucsnm := uid r,
                              MailUser.mls := MailUser.mls (udmMail user rs1) @ mls r\<rparr>
      \<and> set (mls r) \<subseteq> set (MailUser.mls (udmMail user (rs1 @ r # rs2)))
      \<and> ((\<forall>r'\<in>set rs2. \<not> nameMatch [] (name r') \<and> \<not> nameMatch [] (gecos r')) \<longrightarrow>
            ucsnm (udmMail user (rs1 @ r # rs2)) = uid r))"
proof (intro conjI allI impI)
  fix pre dn block post g
  assume "dn_uid dn = Some g \<and> (\<forall>l\<in>set block. \<not> is_dn l \<and> \<not> is_displayName l)
      \<and> (post = [] \<or> is_dn (hd post))"
  then show "\<exists>st rs. readUDM_run pre = Inr st \<and> readUDM (pre @ [dn] @ block @ post) = Inr rs
           \<and> length (udm st) < length rs
           \<and> uid (rs ! length (udm st)) = g \<and> name (rs ! length (udm st)) = []"
    using readUDM_record_without_displayName [of dn g block post pre] by blast
next
  fix user :: MailUser and r :: UdmUser and rs1 rs2 :: "UdmUser list"
  assume "MailUser.name user = [] \<and> name r = []"
  then have a: "MailUser.name user = []" "name r = []" by simp_all
  note t = udmMail_attach_empty [OF a, of rs1 rs2]
  show "nameMatch (MailUser.name user) (name r)" using t by blast
  show "udmMail user (rs1 @ [r]) =
         (udmMail user rs1)\<lparr>ucsnm := uid r,
                              MailUser.mls := MailUser.mls (udmMail user rs1) @ mls r\<rparr>"
    using t by blast
  show "set (mls r) \<subseteq> set (MailUser.mls (udmMail user (rs1 @ r # rs2)))" using t by blast
  assume "\<forall>r'\<in>set rs2. \<not> nameMatch [] (name r') \<and> \<not> nameMatch [] (gecos r')"
  then show "ucsnm (udmMail user (rs1 @ r # rs2)) = uid r" using t by blast
qed

theorem udmMail_empty_name_witness:
  "readUDM ([] @ [asc ''DN: uid=u,x'' @ [10]] @ [asc ''  e-mail: a@x'' @ [10]] @ [])
     = Inr [\<lparr>uid = asc ''u'', name = [], gecos = [], mls = [asc ''a@x'']\<rparr>]
   \<and> udmMail (MailUser_init (asc ''gh'') [])
        ([] @ [\<lparr>uid = asc ''u'', name = [], gecos = [], mls = [asc ''a@x'']\<rparr>])
     = \<lparr>ghnm = asc ''gh'', name = [], ucsnm = asc ''u'', mls = [asc ''a@x'']\<rparr>"
proof -
  let ?r = "\<lparr>uid = asc ''u'', name = [], gecos = [], mls = [asc ''a@x'']\<rparr>"
  have h1: "dn_uid (asc ''DN: uid=u,x'' @ [10]) = Some (asc ''u'')
      \<and> (\<forall>l\<in>set [asc ''  e-mail: a@x'' @ [10]]. \<not> is_dn l \<and> \<not> is_displayName l)
      \<and> (([]::str list) = [] \<or> is_dn (hd []))"
    by (simp add: dn_uid_def is_dn_def is_displayName_def uidre_match_def strip_def slice_def asc_def)
  have e: "readUDM ([] @ [asc ''DN: uid=u,x'' @ [10]] @ [asc ''  e-mail: a@x'' @ [10]] @ []) = Inr [?r]"
    by (simp add: parser_defs)
  from udmMail_empty_name [THEN conjunct1, rule_format, OF h1, of "[]"]
  obtain st rs where "readUDM_run [] = Inr st"
     "readUDM ([] @ [asc ''DN: uid=u,x'' @ [10]] @ [asc ''  e-mail: a@x'' @ [10]] @ []) = Inr rs"
     "name (rs ! length (udm st)) = []"
    by blast
  then have n: "name ?r = []" using e by (simp add: readUDM_run_def)
  have h2: "MailUser.name (MailUser_init (asc ''gh'') []) = [] \<and> name ?r = []"
    using n by (simp add: MailUser_init_def)
  from udmMail_empty_name [THEN conjunct2, rule_format, OF h2, THEN conjunct2, THEN conjunct1, of "[]"]
  have "udmMail (MailUser_init (asc ''gh'') []) ([] @ [?r])
     = \<lparr>ghnm = asc ''gh'', name = [], ucsnm = asc ''u'', mls = [asc ''a@x'']\<rparr>"
    by (simp add: MailUser_init_def)
  with e show ?thesis by blast
qed


section \<open>Normalising twice\<close>

text \<open>
  C4, as stated. \<open>normalizeName\<close> strips one leading \<open>Dr.\<close>, and it trims spaces before it
  turns hyphens into spaces. So \<open>Dr.Dr.X\<close> becomes \<open>Dr.X\<close> and then \<open>X\<close>, and \<open>a-\<close>
  becomes \<open>a\<close> followed by a space and then \<open>a\<close>: the second application changes the
  result.
\<close>

theorem normalizeName_not_idempotent_counterexample:
  "normalizeName (asc ''Dr.Dr.X'') = asc ''Dr.X''
   \<and> normalizeName (normalizeName (asc ''Dr.Dr.X'')) = asc ''X''
   \<and> normalizeName (normalizeName (asc ''Dr.Dr.X'')) \<noteq> normalizeName (asc ''Dr.Dr.X'')
   \<and> normalizeName (asc ''a-'') = asc ''a ''
   \<and> normalizeName (normalizeName (asc ''a-'')) = asc ''a''
   \<and> normalizeName (normalizeName (asc ''a-'')) \<noteq> normalizeName (asc ''a-'')"
  by (simp add: name_defs)


text \<open>
  C4, amended. No replacement of the table produces a code point that the table replaces,
  so the replacements do nothing on a normal form. Hence \<open>normalizeName\<close> leaves the
  normal form of \<open>x\<close> unchanged exactly when that normal form does not begin with \<open>Dr.\<close>
  and has no space at either end.
\<close>

theorem normalizeName_idempotent_iff:
  "normalizeName (normalizeName x) = normalizeName x \<longleftrightarrow>
     take 3 (normalizeName x) \<noteq> asc ''Dr.''
     \<and> strip (asc '' '') (normalizeName x) = normalizeName x"
proof -
  let ?y = "normalizeName x"
  have n: "normalizeName ?y = strip (asc '' '') (if take 3 ?y = asc ''Dr.'' then drop 3 ?y else ?y)"
    by (rule normalizeName_of_clean) (rule normalizeName_clean)
  show ?thesis
  proof (cases "take 3 ?y = asc ''Dr.''")
    case False
    then show ?thesis using n by simp
  next
    case True
    then have "length (take 3 ?y) = 3" by (simp add: asc_def)
    then have l: "3 \<le> length ?y" by simp
    have "length (strip (asc '' '') (drop 3 ?y)) \<le> length (drop 3 ?y)" by (rule strip_length)
    then have "length (normalizeName ?y) < length ?y" using n True l by simp
    then have "normalizeName ?y \<noteq> ?y" by auto
    then show ?thesis using True by simp
  qed
qed

theorem normalizeName_idempotent_iff_witness:
  "normalizeName (normalizeName (asc ''Dr. J'' @ [246] @ asc ''rg-Uwe '')) = asc ''Joerg Uwe''
   \<and> normalizeName (asc ''Dr. J'' @ [246] @ asc ''rg-Uwe '') = asc ''Joerg Uwe''"
proof -
  have e: "normalizeName (asc ''Dr. J'' @ [246] @ asc ''rg-Uwe '') = asc ''Joerg Uwe''"
    by (simp add: name_defs)
  have "take 3 (asc ''Joerg Uwe'') \<noteq> asc ''Dr.'' \<and> strip (asc '' '') (asc ''Joerg Uwe'') = asc ''Joerg Uwe''"
    by (simp add: strip_def asc_def)
  then show ?thesis
    using normalizeName_idempotent_iff [of "asc ''Dr. J'' @ [246] @ asc ''rg-Uwe ''"]
    unfolding e by simp
qed


end
